theory Spec2Isabelle
  imports Main "HOL-Library.Word"
begin

unbundle bit_operations_syntax

section \<open>JavaScript numbers and 32-bit operators\<close>

text \<open>
  The engine of \<^verbatim>\<open>src/git-sha1.ts\<close> (\<^verbatim>\<open>createJs\<close>) computes with JavaScript
  numbers. Every number it handles is an integer, so a number is an \<open>int\<close> here; the
  sums of \<^verbatim>\<open>processBlock\<close> and the bit counter \<^verbatim>\<open>totalLength\<close> are exact as long as
  they stay below \<open>2 ^ 53\<close> in magnitude, which is the range this model speaks about.
  The bitwise operators convert their operands with ToInt32 (reduction modulo
  \<open>2 ^ 32\<close>), work on the 32 bits, and return a signed 32-bit value; \<^verbatim>\<open>>>>\<close> returns
  an unsigned one. A shift count is taken modulo 32.
\<close>

type_synonym u32 = "32 word"

definition ToInt32 :: "int \<Rightarrow> u32" where
  "ToInt32 x = word_of_int x"

definition js_and :: "int \<Rightarrow> int \<Rightarrow> int" where
  "js_and x y = sint (ToInt32 x AND ToInt32 y)"

definition js_or :: "int \<Rightarrow> int \<Rightarrow> int" where
  "js_or x y = sint (ToInt32 x OR ToInt32 y)"

definition js_xor :: "int \<Rightarrow> int \<Rightarrow> int" where
  "js_xor x y = sint (ToInt32 x XOR ToInt32 y)"

definition js_shl :: "int \<Rightarrow> int \<Rightarrow> int" where
  "js_shl x n = sint (push_bit (nat (n mod 32)) (ToInt32 x))"

definition js_shr :: "int \<Rightarrow> int \<Rightarrow> int" where
  "js_shr x n = sint (signed_drop_bit (nat (n mod 32)) (ToInt32 x))"

definition js_ushr :: "int \<Rightarrow> int \<Rightarrow> int" where
  "js_ushr x n = uint (drop_bit (nat (n mod 32)) (ToInt32 x))"

section \<open>The state of one engine\<close>

text \<open>
  A \<^verbatim>\<open>Uint32Array\<close> holds 32-bit words: reading an element gives its unsigned value
  (\<open>uint\<close>), storing a number reduces it modulo \<open>2 ^ 32\<close> (\<open>ToInt32\<close>, the same
  bits). The array has 80 elements; the code only ever uses indices below 80, so the
  array is a function from the index to the word.

  The record holds the variables that the closures of \<^verbatim>\<open>createJs\<close> share. The field
  \<open>processed\<close> is a history variable that is not in the source: every call of
  \<^verbatim>\<open>processBlock\<close> appends the sixteen input words it was called on. Nothing reads
  it; it lets theorems speak about the blocks that were compressed.
\<close>

type_synonym Uint32Array = "nat \<Rightarrow> u32"

record engine =
  h0 :: int
  h1 :: int
  h2 :: int
  h3 :: int
  h4 :: int
  block :: Uint32Array
  offset :: nat
  shift :: int
  totalLength :: int
  processed :: "u32 list list"

text \<open>\<^verbatim>\<open>new Uint32Array(80)\<close>: every element is zero.\<close>

definition new_Uint32Array :: Uint32Array where
  "new_Uint32Array = (\<lambda>_. 0)"

definition createJs :: "bool \<Rightarrow> Uint32Array \<Rightarrow> engine" where
  "createJs sync shared =
     \<lparr> h0 = 0x67452301, h1 = 0xEFCDAB89, h2 = 0x98BADCFE, h3 = 0x10325476, h4 = 0xC3D2E1F0,
       block = (if sync then shared else new_Uint32Array),
       offset = 0, shift = 24, totalLength = 0, processed = [] \<rparr>"

section \<open>processBlock\<close>

text \<open>The first loop of \<^verbatim>\<open>processBlock\<close>: one step for index \<open>i\<close>, run for 16..79.\<close>

definition extend_step :: "nat \<Rightarrow> Uint32Array \<Rightarrow> Uint32Array" where
  "extend_step i blk =
     (let w = js_xor (js_xor (js_xor (uint (blk (i - 3))) (uint (blk (i - 8))))
                             (uint (blk (i - 14)))) (uint (blk (i - 16)))
      in blk(i := ToInt32 (js_or (js_shl w 1) (js_ushr w 31))))"

definition extend :: "Uint32Array \<Rightarrow> Uint32Array" where
  "extend blk = fold extend_step [16..<80] blk"

text \<open>The main loop: the body for round \<open>i\<close> on the variables \<open>a, b, c, d, e\<close>.\<close>

type_synonym vars = "int \<times> int \<times> int \<times> int \<times> int"

definition round_f :: "nat \<Rightarrow> int \<Rightarrow> int \<Rightarrow> int \<Rightarrow> int" where
  "round_f i b c d =
     (if i < 20 then js_xor d (js_and b (js_xor c d))
      else if i < 40 then js_xor (js_xor b c) d
      else if i < 60 then js_or (js_and b c) (js_and d (js_or b c))
      else js_xor (js_xor b c) d)"

definition round_k :: "nat \<Rightarrow> int" where
  "round_k i =
     (if i < 20 then 0x5A827999
      else if i < 40 then 0x6ED9EBA1
      else if i < 60 then 0x8F1BBCDC
      else 0xCA62C1D6)"

fun round_step :: "Uint32Array \<Rightarrow> nat \<Rightarrow> vars \<Rightarrow> vars" where
  "round_step blk i (a, b, c, d, e) =
     (let f = round_f i b c d;
          k = round_k i;
          temp = js_or (js_shl a 5) (js_ushr a 27) + f + e + k + js_or (uint (blk i)) 0
      in (temp, a, js_or (js_shl b 30) (js_ushr b 2), c, d))"

definition main_loop :: "Uint32Array \<Rightarrow> vars \<Rightarrow> vars" where
  "main_loop blk v = fold (round_step blk) [0..<80] v"

definition zero_block :: "Uint32Array \<Rightarrow> Uint32Array" where
  "zero_block blk = fold (\<lambda>i b. b(i := 0)) [0..<16] blk"

definition processBlock :: "engine \<Rightarrow> engine" where
  "processBlock s =
     (let blk = extend (block s);
          (a, b, c, d, e) = main_loop blk (h0 s, h1 s, h2 s, h3 s, h4 s)
      in s\<lparr> h0 := js_or (h0 s + a) 0,
            h1 := js_or (h1 s + b) 0,
            h2 := js_or (h2 s + c) 0,
            h3 := js_or (h3 s + d) 0,
            h4 := js_or (h4 s + e) 0,
            offset := 0,
            block := zero_block blk,
            processed := processed s @ [map (block s) [0..<16]] \<rparr>)"

section \<open>write, update, digest\<close>

definition "write" :: "engine \<Rightarrow> int \<Rightarrow> engine" where
  "write s byte =
     (let s1 = s\<lparr> block := (block s)(offset s :=
                  ToInt32 (js_or (uint (block s (offset s))) (js_shl (js_and byte 0xff) (shift s)))) \<rparr>;
          s2 = (if shift s1 \<noteq> 0 then s1\<lparr> shift := shift s1 - 8 \<rparr>
                else s1\<lparr> offset := offset s1 + 1, shift := 24 \<rparr>)
      in if offset s2 = 16 then processBlock s2 else s2)"

text \<open>
  A chunk is a string, that is a sequence of UTF-16 code units (\<^verbatim>\<open>charCodeAt\<close> returns
  the unit as a number), or an array of numbers. An array element is an integer here;
  the only use of an element is under \<^verbatim>\<open>& 0xff\<close>, whose ToInt32 truncates a
  fraction first.
\<close>

datatype chunk = Str "16 word list" | Arr "int list"

definition updateString :: "engine \<Rightarrow> 16 word list \<Rightarrow> engine" where
  "updateString s str =
     foldl (\<lambda>s c. write s (uint c))
       (s\<lparr> totalLength := totalLength s + int (length str) * 8 \<rparr>) str"

definition update :: "engine \<Rightarrow> chunk \<Rightarrow> engine" where
  "update s chunk =
     (case chunk of
        Str str \<Rightarrow> updateString s str
      | Arr xs \<Rightarrow> foldl write (s\<lparr> totalLength := totalLength s + int (length xs) * 8 \<rparr>) xs)"

text \<open>\<^verbatim>\<open>Number.prototype.toString(16)\<close> on an integer.\<close>

definition hexchar :: "nat \<Rightarrow> char" where
  "hexchar n = ''0123456789abcdef'' ! n"

function digits16 :: "nat \<Rightarrow> string" where
  "digits16 n = (if n < 16 then [hexchar n] else digits16 (n div 16) @ [hexchar (n mod 16)])"
  by pat_completeness auto
termination
  by (relation "measure id") auto

definition toString16 :: "int \<Rightarrow> string" where
  "toString16 x = (if x < 0 then CHR ''-'' # digits16 (nat (- x)) else digits16 (nat x))"

definition toHex :: "int \<Rightarrow> string" where
  "toHex word = fold (\<lambda>i hex. hex @ toString16 (js_and (js_shr word i) 0xf))
                     [28, 24, 20, 16, 12, 8, 4, 0] ''''"

text \<open>
  \<^verbatim>\<open>digest\<close> in three parts: the padding (lines 66 to 71), the eight bytes of the
  length (lines 74 to 80; the quotient of the two divisions is a fraction that the
  \<^verbatim>\<open>& 0xff\<close> of \<^verbatim>\<open>write\<close> truncates, hence \<open>div\<close>), and the result string.
\<close>

definition digest_pad :: "engine \<Rightarrow> engine" where
  "digest_pad s =
     (let s1 = write s 0x80;
          s2 = (if offset s1 > 14 \<or> (offset s1 = 14 \<and> shift s1 < 24) then processBlock s1 else s1)
      in s2\<lparr> offset := 14, shift := 24 \<rparr>)"

definition length_bytes :: "int \<Rightarrow> int list" where
  "length_bytes len =
     [0x00, 0x00,
      (if len > 0xffffffffff then len div 0x10000000000 else 0x00),
      (if len > 0xffffffff then len div 0x100000000 else 0x00)]
     @ map (js_shr len) [24, 16, 8, 0]"

definition digest_length :: "engine \<Rightarrow> engine" where
  "digest_length s = foldl write s (length_bytes (totalLength s))"

definition hex_state :: "engine \<Rightarrow> string" where
  "hex_state s = toHex (h0 s) @ toHex (h1 s) @ toHex (h2 s) @ toHex (h3 s) @ toHex (h4 s)"

definition digest :: "engine \<Rightarrow> string \<times> engine" where
  "digest s = (let s' = digest_length (digest_pad s) in (hex_state s', s'))"

text \<open>
  The one-shot form \<^verbatim>\<open>sha1(buffer)\<close> with a string, when \<^verbatim>\<open>create\<close> is
  \<^verbatim>\<open>createJs\<close>: the engine borrows the module's array \<^verbatim>\<open>shared\<close>, which the call
  leaves changed. The result is the digest and the new content of \<^verbatim>\<open>shared\<close>.
  Without an argument \<^verbatim>\<open>sha1()\<close> returns the engine \<open>createJs False\<close>, which has
  an array of its own.
\<close>

definition sha1 :: "Uint32Array \<Rightarrow> 16 word list \<Rightarrow> string \<times> Uint32Array" where
  "sha1 shared buffer =
     (let shasum = createJs True shared;
          (d, s) = digest (update shasum (Str buffer))
      in (d, block s))"

text \<open>A string literal of ASCII characters as a JavaScript string.\<close>

definition js_string :: "string \<Rightarrow> 16 word list" where
  "js_string cs = map of_char cs"

section \<open>The block processing of the specification\<close>

text \<open>
  The second definition of the compression, written from the specification's words on
  32-bit words (all arithmetic modulo \<open>2 ^ 32\<close>): the message schedule
  \<open>w[i] = rotate-left-1 (w[i-3] xor w[i-8] xor w[i-14] xor w[i-16])\<close>, the round
  function and constant selected by the range of \<open>i\<close>, the round update, and the
  final addition into the chaining value. The theorems compare \<open>processBlock\<close> with it.
\<close>

type_synonym chain = "u32 \<times> u32 \<times> u32 \<times> u32 \<times> u32"

fun spec_w :: "Uint32Array \<Rightarrow> nat \<Rightarrow> u32" where
  "spec_w m i =
     (if i < 16 then m i
      else word_rotl 1 (spec_w m (i - 3) XOR spec_w m (i - 8) XOR spec_w m (i - 14) XOR spec_w m (i - 16)))"

declare spec_w.simps [simp del]

definition spec_f :: "nat \<Rightarrow> u32 \<Rightarrow> u32 \<Rightarrow> u32 \<Rightarrow> u32" where
  "spec_f i b c d =
     (if i < 20 then d XOR (b AND (c XOR d))
      else if i < 40 then b XOR c XOR d
      else if i < 60 then (b AND c) OR (d AND (b OR c))
      else b XOR c XOR d)"

definition spec_k :: "nat \<Rightarrow> u32" where
  "spec_k i =
     (if i < 20 then 0x5A827999
      else if i < 40 then 0x6ED9EBA1
      else if i < 60 then 0x8F1BBCDC
      else 0xCA62C1D6)"

fun spec_round :: "Uint32Array \<Rightarrow> nat \<Rightarrow> chain \<Rightarrow> chain" where
  "spec_round m i (a, b, c, d, e) =
     (let temp = word_rotl 5 a + spec_f i b c d + e + spec_k i + spec_w m i
      in (temp, a, word_rotl 30 b, c, d))"

definition spec_rounds :: "Uint32Array \<Rightarrow> chain \<Rightarrow> chain" where
  "spec_rounds m v = fold (spec_round m) [0..<80] v"

fun spec_processBlock :: "chain \<Rightarrow> Uint32Array \<Rightarrow> chain" where
  "spec_processBlock (H0, H1, H2, H3, H4) m =
     (case spec_rounds m (H0, H1, H2, H3, H4) of
        (a, b, c, d, e) \<Rightarrow> (H0 + a, H1 + b, H2 + c, H3 + d, H4 + e))"

text \<open>The variables of the code read as 32-bit words.\<close>

fun vars_words :: "vars \<Rightarrow> chain" where
  "vars_words (a, b, c, d, e) = (ToInt32 a, ToInt32 b, ToInt32 c, ToInt32 d, ToInt32 e)"

definition chain_of :: "engine \<Rightarrow> chain" where
  "chain_of s = vars_words (h0 s, h1 s, h2 s, h3 s, h4 s)"

text \<open>
  The same rounds on a window of sixteen schedule words, \<open>w[i] .. w[i+15]\<close>: the
  head of the window is the word of round \<open>i\<close>, and the window slides by one word
  per round. It is proved equal to \<open>spec_rounds\<close> below and serves to evaluate a
  block in eighty small steps.
\<close>

definition slide :: "u32 list \<Rightarrow> u32 list" where
  "slide ws = tl ws @ [word_rotl 1 (ws ! 13 XOR ws ! 8 XOR ws ! 2 XOR ws ! 0)]"

fun win_round :: "nat \<Rightarrow> u32 list \<times> chain \<Rightarrow> u32 list \<times> chain" where
  "win_round i (ws, (a, b, c, d, e)) =
     (slide ws, (word_rotl 5 a + spec_f i b c d + e + spec_k i + ws ! 0, a, word_rotl 30 b, c, d))"

section \<open>Notions used by the theorems\<close>

text \<open>The numbers that \<^verbatim>\<open>update\<close> passes to \<^verbatim>\<open>write\<close> for a chunk, in order.\<close>

definition chunk_bytes :: "chunk \<Rightarrow> int list" where
  "chunk_bytes chunk = (case chunk of Str str \<Rightarrow> map uint str | Arr xs \<Rightarrow> xs)"

text \<open>The sixteen input words of an array are zero.\<close>

definition clean :: "Uint32Array \<Rightarrow> bool" where
  "clean blk = list_all (\<lambda>i. blk i = 0) [0..<16]"

text \<open>
  Every byte of the sixteen input words from the cursor \<open>(off, sh)\<close> on is zero: the
  byte at the cursor and the bytes below it in word \<open>off\<close>, and all later words.
\<close>

definition zero_from :: "Uint32Array \<Rightarrow> nat \<Rightarrow> int \<Rightarrow> bool" where
  "zero_from blk off sh =
     (take_bit (nat sh + 8) (blk off) = 0 \<and> list_all (\<lambda>i. blk i = 0) [Suc off..<16])"

text \<open>The count of bytes in the current partial block, as the specification gives it.\<close>

definition written :: "engine \<Rightarrow> int" where
  "written s = int (offset s) * 4 + (3 - shift s div 8)"


text \<open>The cursor is inside the sixteen input words and on a byte boundary.\<close>

definition cursor_ok :: "engine \<Rightarrow> bool" where
  "cursor_ok s = (offset s < 16 \<and> shift s \<in> {24, 16, 8, 0})"

text \<open>The array after the first statement of \<^verbatim>\<open>write\<close>, as words.\<close>

definition stored :: "engine \<Rightarrow> int \<Rightarrow> Uint32Array" where
  "stored s byte =
     (block s)(offset s := block s (offset s) OR push_bit (nat (shift s)) (ToInt32 byte AND 0xff))"

text \<open>
  The word that four calls of \<^verbatim>\<open>write\<close> pack into an empty word, first byte in the
  high-order position.
\<close>

definition packed :: "int \<Rightarrow> int \<Rightarrow> int \<Rightarrow> int \<Rightarrow> u32" where
  "packed b0 b1 b2 b3 =
     push_bit 24 (ToInt32 b0 AND 0xff) OR push_bit 16 (ToInt32 b1 AND 0xff)
       OR push_bit 8 (ToInt32 b2 AND 0xff) OR (ToInt32 b3 AND 0xff)"

text \<open>
  Two engines that differ at most in the scratch words 16 to 79 of their arrays.
\<close>

definition agree :: "engine \<Rightarrow> engine \<Rightarrow> bool" where
  "agree s t =
     (h0 s = h0 t \<and> h1 s = h1 t \<and> h2 s = h2 t \<and> h3 s = h3 t \<and> h4 s = h4 t
      \<and> offset s = offset t \<and> shift s = shift t \<and> totalLength s = totalLength t
      \<and> processed s = processed t \<and> (\<forall>i < 16. block s i = block t i))"

text \<open>The two words that the eight length bytes of \<^verbatim>\<open>digest\<close> pack.\<close>

definition len_hi :: "int \<Rightarrow> u32" where
  "len_hi len = packed 0 0 (if len > 0xffffffffff then len div 0x10000000000 else 0)
            (if len > 0xffffffff then len div 0x100000000 else 0)"

definition len_lo :: "int \<Rightarrow> u32" where
  "len_lo len = packed (js_shr len 24) (js_shr len 16) (js_shr len 8) (js_shr len 0)"

text \<open>The number of bytes that a sequence of chunks feeds to the engine.\<close>

definition total_bytes :: "chunk list \<Rightarrow> nat" where
  "total_bytes cs = length (concat (map chunk_bytes cs))"

text \<open>
  The content of the module's array \<^verbatim>\<open>shared\<close> after a sequence of one-shot calls
  \<^verbatim>\<open>sha1(buffer)\<close>: it is allocated once, and only these calls use it.
\<close>

definition shared_after :: "16 word list list \<Rightarrow> Uint32Array" where
  "shared_after bufs = foldl (\<lambda>shared buf. snd (sha1 shared buf)) new_Uint32Array bufs"

text \<open>
  The variables of the main loop are small enough for the sums of a round to be exact
  in JavaScript's number type.
\<close>

fun small_vars :: "vars \<Rightarrow> bool" where
  "small_vars (a, b, c, d, e) =
     (\<bar>a\<bar> \<le> 2 ^ 34 \<and> \<bar>b\<bar> \<le> 2 ^ 34 \<and> \<bar>c\<bar> \<le> 2 ^ 32 \<and> \<bar>d\<bar> \<le> 2 ^ 32 \<and> \<bar>e\<bar> \<le> 2 ^ 32)"


section \<open>The 32-bit reading of the JavaScript operators\<close>

lemma ToInt32_sint: "ToInt32 (sint w) = w"
  by (simp add: ToInt32_def)

lemma ToInt32_uint: "ToInt32 (uint w) = w"
  by (simp add: ToInt32_def)

lemma ToInt32_add: "ToInt32 (x + y) = ToInt32 x + ToInt32 y"
  by (simp add: ToInt32_def)

lemma ToInt32_zero: "ToInt32 0 = 0"
  by (simp add: ToInt32_def)

lemma ToInt32_xor: "ToInt32 (js_xor x y) = ToInt32 x XOR ToInt32 y"
  by (simp add: js_xor_def ToInt32_sint)

lemma ToInt32_and: "ToInt32 (js_and x y) = ToInt32 x AND ToInt32 y"
  by (simp add: js_and_def ToInt32_sint)

lemma ToInt32_or: "ToInt32 (js_or x y) = ToInt32 x OR ToInt32 y"
  by (simp add: js_or_def ToInt32_sint)

lemma rotl_word:
  assumes "0 < n" "n < 32"
  shows "push_bit n w OR drop_bit (32 - n) w = word_rotl n (w :: u32)"
proof (rule bit_word_eqI)
  fix k assume k: "k < LENGTH(32)"
  have idx: "(k + 32 - n) mod 32 = (if n \<le> k then k - n else 32 + k - n)"
    using assms k by (simp add: mod_if) presburger
  show "bit (push_bit n w OR drop_bit (32 - n) w) k = bit (word_rotl n w) k"
    using assms k by (auto simp add: bit_simps idx dest: bit_imp_le_length)
qed

lemma ToInt32_rotl5: "ToInt32 (js_shl x 5) OR ToInt32 (js_ushr x 27) = word_rotl 5 (ToInt32 x)"
  using rotl_word [of 5 "ToInt32 x"]
  by (simp add: js_shl_def js_ushr_def ToInt32_sint ToInt32_uint)

lemma ToInt32_rotl30: "ToInt32 (js_shl x 30) OR ToInt32 (js_ushr x 2) = word_rotl 30 (ToInt32 x)"
  using rotl_word [of 30 "ToInt32 x"]
  by (simp add: js_shl_def js_ushr_def ToInt32_sint ToInt32_uint)

lemma ToInt32_rotl1: "ToInt32 (js_shl x 1) OR ToInt32 (js_ushr x 31) = word_rotl 1 (ToInt32 x)"
  using rotl_word [of 1 "ToInt32 x"]
  by (simp add: js_shl_def js_ushr_def ToInt32_sint ToInt32_uint)

lemmas ToInt32_simps = ToInt32_sint ToInt32_uint ToInt32_add ToInt32_xor ToInt32_and ToInt32_or
  ToInt32_rotl1 ToInt32_rotl5 ToInt32_rotl30 ToInt32_zero

section \<open>processBlock against the specification\<close>

lemma spec_w_lt: "i < 16 \<Longrightarrow> spec_w m i = m i"
  by (simp add: spec_w.simps)

lemma spec_w_ge:
  "16 \<le> i \<Longrightarrow>
   spec_w m i = word_rotl 1 (spec_w m (i - 3) XOR spec_w m (i - 8) XOR spec_w m (i - 14) XOR spec_w m (i - 16))"
  by (subst spec_w.simps) simp

lemma extend_step_apply:
  "extend_step i blk j =
     (if j = i then word_rotl 1 (blk (i - 3) XOR blk (i - 8) XOR blk (i - 14) XOR blk (i - 16))
      else blk j)"
  by (simp add: extend_step_def Let_def ToInt32_simps xor.assoc)

lemma extend_upto:
  "16 \<le> n \<Longrightarrow> fold extend_step [16..<n] blk j = (if j < n then spec_w blk j else blk j)"
proof (induction n arbitrary: j rule: dec_induct)
  case base
  then show ?case by (simp add: spec_w_lt)
next
  case (step n)
  have "fold extend_step [16..<Suc n] blk j = extend_step n (fold extend_step [16..<n] blk) j"
    using step.hyps by simp
  also have "\<dots> = (if j < Suc n then spec_w blk j else blk j)"
    using step.hyps by (auto simp add: extend_step_apply step.IH spec_w_ge [of n] less_Suc_eq)
  finally show ?case .
qed

lemma extend_apply: "extend blk j = (if j < 80 then spec_w blk j else blk j)"
  unfolding extend_def by (rule extend_upto) simp

lemma round_f_words:
  "ToInt32 (round_f i b c d) = spec_f i (ToInt32 b) (ToInt32 c) (ToInt32 d)"
  by (simp add: round_f_def spec_f_def ToInt32_simps xor.assoc)

lemma round_k_words: "ToInt32 (round_k i) = spec_k i"
  by (simp add: round_k_def spec_k_def ToInt32_def)

lemma round_step_words:
  "i < 80 \<Longrightarrow> vars_words (round_step (extend blk) i v) = spec_round blk i (vars_words v)"
  by (cases v) (simp add: Let_def ToInt32_simps round_f_words round_k_words extend_apply)

lemma rounds_words:
  "\<forall>i \<in> set is. i < 80 \<Longrightarrow>
   vars_words (fold (round_step (extend blk)) is v) = fold (spec_round blk) is (vars_words v)"
  by (induction "is" arbitrary: v) (simp_all add: round_step_words)

lemma main_loop_words:
  "vars_words (main_loop (extend blk) v) = spec_rounds blk (vars_words v)"
  unfolding main_loop_def spec_rounds_def by (rule rounds_words) simp

lemma zero_block_apply: "zero_block blk j = (if j < 16 then 0 else blk j)"
proof -
  have "fold (\<lambda>i b. b(i := 0)) [0..<n] blk j = (if j < n then 0 else blk j)" for n
    by (induction n) (auto simp add: less_Suc_eq)
  then show ?thesis by (simp add: zero_block_def)
qed

lemma js_or_zero_add: "js_or (x + y) 0 = sint (ToInt32 x + ToInt32 y)"
  by (simp add: js_or_def ToInt32_simps)

lemma processBlock_words:
  "processBlock s =
     (case spec_processBlock (chain_of s) (block s) of
        (A, B, C, D, E) \<Rightarrow>
          s\<lparr> h0 := sint A, h1 := sint B, h2 := sint C, h3 := sint D, h4 := sint E,
             offset := 0, block := zero_block (extend (block s)),
             processed := processed s @ [map (block s) [0..<16]] \<rparr>)"
proof -
  obtain a b c d e
    where v: "main_loop (extend (block s)) (h0 s, h1 s, h2 s, h3 s, h4 s) = (a, b, c, d, e)"
    by (metis prod_cases5)
  have "spec_rounds (block s) (chain_of s) = vars_words (a, b, c, d, e)"
    using main_loop_words [of "block s" "(h0 s, h1 s, h2 s, h3 s, h4 s)"] v
    by (simp add: chain_of_def)
  then show ?thesis
    by (simp add: processBlock_def Let_def v chain_of_def js_or_zero_add)
qed

lemma chain_of_processBlock:
  "chain_of (processBlock s) = spec_processBlock (chain_of s) (block s)"
  by (simp add: processBlock_words chain_of_def ToInt32_sint split: prod.split)

text \<open>
  C3. Every call of \<open>processBlock\<close> extends the sixteen input words by the schedule
  \<open>w[i] = rotate-left-1 (w[i-3] xor w[i-8] xor w[i-14] xor w[i-16])\<close> for
  \<open>i\<close> from 16 to 79, runs the eighty rounds with \<open>f\<close> and \<open>k\<close> chosen by the
  range of \<open>i\<close> and the update \<open>temp = rotate-left-5 a + f + e + k + w[i]\<close>,
  \<open>e = d\<close>, \<open>d = c\<close>, \<open>c = rotate-left-30 b\<close>, \<open>b = a\<close>, \<open>a = temp\<close>, and adds
  \<open>a, b, c, d, e\<close> into \<open>h0 .. h4\<close>, all read modulo \<open>2 ^ 32\<close>: the code agrees
  with the specification's block processing on every state.
\<close>

theorem processBlock_refines_spec:
  "map (extend (block s)) [0..<80] = map (spec_w (block s)) [0..<80]
   \<and> vars_words (main_loop (extend (block s)) v) = spec_rounds (block s) (vars_words v)
   \<and> chain_of (processBlock s) = spec_processBlock (chain_of s) (block s)"
proof (intro conjI)
  show "map (extend (block s)) [0..<80] = map (spec_w (block s)) [0..<80]"
    by (rule map_cong) (simp_all add: extend_apply)
  show "vars_words (main_loop (extend (block s)) v) = spec_rounds (block s) (vars_words v)"
    by (rule main_loop_words)
  show "chain_of (processBlock s) = spec_processBlock (chain_of s) (block s)"
    by (rule chain_of_processBlock)
qed

section \<open>Evaluating a block\<close>

lemma slide_window: "slide (map (spec_w m) [n..<n + 16]) = map (spec_w m) [Suc n..<Suc n + 16]"
proof -
  have "tl (map (spec_w m) [n..<n + 16]) = map (spec_w m) [Suc n..<n + 16]"
    by (simp add: upt_conv_Cons [of n] del: upt_Suc)
  moreover have "spec_w m (n + 16) =
      word_rotl 1 (spec_w m (n + 13) XOR spec_w m (n + 8) XOR spec_w m (n + 2) XOR spec_w m n)"
    using spec_w_ge [of "n + 16" m] by (simp add: add.commute)
  moreover have "[Suc n..<Suc n + 16] = [Suc n..<n + 16] @ [n + 16]"
    using upt_Suc_append [of "Suc n" "n + 16"] by simp
  moreover have "map (spec_w m) [n..<n + 16] ! 13 = spec_w m (n + 13)"
    "map (spec_w m) [n..<n + 16] ! 8 = spec_w m (n + 8)"
    "map (spec_w m) [n..<n + 16] ! 2 = spec_w m (n + 2)"
    "map (spec_w m) [n..<n + 16] ! 0 = spec_w m n"
    by simp_all
  ultimately show ?thesis
    by (simp only: slide_def map_append list.map)
qed

lemma win_rounds:
  "fold win_round [0..<n] (map m [0..<16], v) =
     (map (spec_w m) [n..<n + 16], fold (spec_round m) [0..<n] v)"
proof (induction n)
  case 0
  have "map m [0..<16] = map (spec_w m) [0..<16]"
    by (rule map_cong) (simp_all add: spec_w_lt)
  then show ?case by simp
next
  case (Suc n)
  obtain a b c d e where v: "fold (spec_round m) [0..<n] v = (a, b, c, d, e)"
    by (metis prod_cases5)
  have hd: "map (spec_w m) [n..<n + 16] ! 0 = spec_w m n"
    by (simp add: upt_conv_Cons [of n] del: upt_Suc)
  have "fold win_round [0..<Suc n] (map m [0..<16], v) =
          win_round n (fold win_round [0..<n] (map m [0..<16], v))"
    by simp
  also have "\<dots> = win_round n (map (spec_w m) [n..<n + 16], (a, b, c, d, e))"
    by (simp only: Suc.IH v)
  also have "\<dots> = (slide (map (spec_w m) [n..<n + 16]), spec_round m n (a, b, c, d, e))"
    by (simp only: win_round.simps spec_round.simps hd Let_def)
  also have "\<dots> = (map (spec_w m) [Suc n..<Suc n + 16], fold (spec_round m) [0..<Suc n] v)"
    by (simp only: slide_window) (simp add: v)
  finally show ?case .
qed

lemma spec_rounds_window: "spec_rounds m v = snd (fold win_round [0..<80] (map m [0..<16], v))"
  by (simp add: win_rounds spec_rounds_def)

text \<open>
  The equations that evaluate a round on numerals. The result of every addition and
  rotation is read back through \<open>uint\<close>, which keeps the numerals below \<open>2 ^ 32\<close>.
\<close>

lemma rotl_eval:
  "word_rotl (Suc 0) (w :: u32) = push_bit 1 w OR drop_bit 31 w"
  "word_rotl 5 (w :: u32) = push_bit 5 w OR drop_bit 27 w"
  "word_rotl 30 (w :: u32) = push_bit 30 w OR drop_bit 2 w"
  using rotl_word [of 1 w] rotl_word [of 5 w] rotl_word [of 30 w] by simp_all

lemma win_round_eval:
  "win_round i ([w0, w1, w2, w3, w4, w5, w6, w7, w8, w9, w10, w11, w12, w13, w14, w15], (a, b, c, d, e)) =
     ([w1, w2, w3, w4, w5, w6, w7, w8, w9, w10, w11, w12, w13, w14, w15, word_of_int (uint (word_rotl 1 (w13 XOR w8 XOR w2 XOR w0)))],
      (word_of_int (uint (word_rotl 5 a + spec_f i b c d + e + spec_k i + w0)), a,
       word_of_int (uint (word_rotl 30 b)), c, d))"
  by (simp add: slide_def)

lemmas js_ops = js_xor_def js_and_def js_or_def js_shl_def js_shr_def js_ushr_def ToInt32_def

lemmas engine_eval =
  sha1_def digest_def digest_pad_def digest_length_def length_bytes_def hex_state_def
  toHex_def toString16_def hexchar_def update_def updateString_def js_string_def
  createJs_def new_Uint32Array_def write_def Let_def js_ops
  processBlock_words chain_of_def spec_rounds_window win_round_eval rotl_eval
  spec_f_def spec_k_def upt_conv_Cons zero_block_apply




section \<open>The sums of processBlock are exact\<close>

text \<open>
  The chaining values are at most \<open>2 ^ 32\<close> in magnitude, at construction and after
  every block; then every variable of the main loop stays within \<open>2 ^ 34\<close> and the
  final sums are far below \<open>2 ^ 53\<close>, where JavaScript's numbers are exact integers.
\<close>

lemma sint_abs: "\<bar>sint (w :: u32)\<bar> \<le> 2 ^ 31"
  using sint_ge [of w] sint_lt [of w] by (simp add: abs_le_iff)

lemma js_abs:
  "\<bar>js_or x y\<bar> \<le> 2 ^ 31" "\<bar>js_and x y\<bar> \<le> 2 ^ 31" "\<bar>js_xor x y\<bar> \<le> 2 ^ 31"
  unfolding js_or_def js_and_def js_xor_def by (rule sint_abs)+

lemma round_f_abs: "\<bar>round_f i b c d\<bar> \<le> 2 ^ 31"
proof -
  have "round_f i b c d = js_xor d (js_and b (js_xor c d))
      \<or> round_f i b c d = js_xor (js_xor b c) d
      \<or> round_f i b c d = js_or (js_and b c) (js_and d (js_or b c))"
    by (simp add: round_f_def)
  then show ?thesis
    by (elim disjE) (simp_all only: js_abs)
qed

lemma round_k_abs: "\<bar>round_k i\<bar> \<le> 2 ^ 32"
  by (simp add: round_k_def)

lemma small_round_step: "small_vars v \<Longrightarrow> small_vars (round_step blk i v)"
proof (cases v)
  case (fields a b c d e)
  assume "small_vars v"
  then have e: "\<bar>e\<bar> \<le> 2 ^ 32" "\<bar>a\<bar> \<le> 2 ^ 34" "\<bar>c\<bar> \<le> 2 ^ 32" "\<bar>d\<bar> \<le> 2 ^ 32"
    by (simp_all add: fields)
  have "\<bar>js_or (js_shl a 5) (js_ushr a 27) + round_f i b c d + e + round_k i + js_or (uint (blk i)) 0\<bar>
      \<le> 2 ^ 34"
    using js_abs(1) [of "js_shl a 5" "js_ushr a 27"] js_abs(1) [of "uint (blk i)" 0]
      round_f_abs [of i b c d] round_k_abs [of i] e(1)
    by (simp add: abs_le_iff)
  moreover have "\<bar>js_or (js_shl b 30) (js_ushr b 2)\<bar> \<le> 2 ^ 32"
    using js_abs(1) [of "js_shl b 30" "js_ushr b 2"] by (simp add: abs_le_iff)
  ultimately show ?thesis
    using e by (simp add: fields Let_def)
qed

lemma small_main_loop: "small_vars v \<Longrightarrow> small_vars (main_loop blk v)"
proof -
  have "small_vars v \<Longrightarrow> small_vars (fold (round_step blk) is v)" for "is"
    by (induction "is" arbitrary: v) (simp_all add: small_round_step)
  then show "small_vars v \<Longrightarrow> small_vars (main_loop blk v)"
    by (simp add: main_loop_def)
qed

lemma processBlock_exact:
  assumes "\<bar>h0 s\<bar> \<le> 2 ^ 32" "\<bar>h1 s\<bar> \<le> 2 ^ 32" "\<bar>h2 s\<bar> \<le> 2 ^ 32" "\<bar>h3 s\<bar> \<le> 2 ^ 32"
    "\<bar>h4 s\<bar> \<le> 2 ^ 32"
    and "main_loop (extend (block s)) (h0 s, h1 s, h2 s, h3 s, h4 s) = (a, b, c, d, e)"
  shows "\<bar>h0 s + a\<bar> < 2 ^ 53 \<and> \<bar>h1 s + b\<bar> < 2 ^ 53 \<and> \<bar>h2 s + c\<bar> < 2 ^ 53
    \<and> \<bar>h3 s + d\<bar> < 2 ^ 53 \<and> \<bar>h4 s + e\<bar> < 2 ^ 53"
proof -
  have "small_vars (h0 s, h1 s, h2 s, h3 s, h4 s)"
    using assms by simp
  then have "small_vars (a, b, c, d, e)"
    using small_main_loop [of "(h0 s, h1 s, h2 s, h3 s, h4 s)" "extend (block s)"] assms(6)
    by simp
  then show ?thesis
    using assms(1-5) by (simp add: abs_le_iff abs_less_iff)
qed

lemma small_chain_createJs:
  "\<bar>h0 (createJs sync sh)\<bar> \<le> 2 ^ 32 \<and> \<bar>h1 (createJs sync sh)\<bar> \<le> 2 ^ 32
   \<and> \<bar>h2 (createJs sync sh)\<bar> \<le> 2 ^ 32 \<and> \<bar>h3 (createJs sync sh)\<bar> \<le> 2 ^ 32
   \<and> \<bar>h4 (createJs sync sh)\<bar> \<le> 2 ^ 32"
  by (simp add: createJs_def)

lemma small_chain_processBlock:
  "\<bar>h0 (processBlock s)\<bar> \<le> 2 ^ 32 \<and> \<bar>h1 (processBlock s)\<bar> \<le> 2 ^ 32
   \<and> \<bar>h2 (processBlock s)\<bar> \<le> 2 ^ 32 \<and> \<bar>h3 (processBlock s)\<bar> \<le> 2 ^ 32
   \<and> \<bar>h4 (processBlock s)\<bar> \<le> 2 ^ 32"
proof -
  have "\<bar>sint (w :: u32)\<bar> \<le> 2 ^ 32" for w
    using sint_abs [of w] by (simp add: abs_le_iff)
  then show ?thesis
    by (simp add: processBlock_words split: prod.split)
qed
section \<open>Known answers\<close>

lemma sha1_empty:
  "fst (sha1 new_Uint32Array (js_string '''')) = ''da39a3ee5e6b4b0d3255bfef95601890afd80709''"
  by (simp add: engine_eval del: win_round.simps cong: let_weak_cong)

lemma sha1_abc:
  "fst (sha1 new_Uint32Array (js_string ''abc'')) = ''a9993e364706816aba3e25717850c26c9cd0d89d''"
  by (simp add: engine_eval del: win_round.simps cong: let_weak_cong)

lemma sha1_fox:
  "fst (sha1 new_Uint32Array (js_string ''The quick brown fox jumps over the lazy dog'')) =
     ''2fd4e1c67a2d28fced849ee1bb76e7391b93eb12''"
  by (simp add: engine_eval del: win_round.simps cong: let_weak_cong)

text \<open>
  C1. The one-shot form over the engine of \<open>createJs\<close>, on the array \<open>shared\<close> as the
  module allocates it, returns the known digests of the empty string, of \<open>abc\<close> and
  of \<open>The quick brown fox jumps over the lazy dog\<close>.
\<close>

theorem sha1_known_answers:
  "fst (sha1 new_Uint32Array (js_string '''')) = ''da39a3ee5e6b4b0d3255bfef95601890afd80709''
   \<and> fst (sha1 new_Uint32Array (js_string ''abc'')) = ''a9993e364706816aba3e25717850c26c9cd0d89d''
   \<and> fst (sha1 new_Uint32Array (js_string ''The quick brown fox jumps over the lazy dog'')) =
       ''2fd4e1c67a2d28fced849ee1bb76e7391b93eb12''"
  by (intro conjI sha1_empty sha1_abc sha1_fox)




section \<open>write and totalLength\<close>

lemma processBlock_totalLength_update:
  "processBlock (s\<lparr>totalLength := t\<rparr>) = (processBlock s)\<lparr>totalLength := t\<rparr>"
  by (simp add: processBlock_def Let_def split: prod.split)

lemma write_totalLength_update:
  "write (s\<lparr>totalLength := t\<rparr>) b = (write s b)\<lparr>totalLength := t\<rparr>"
  by (simp add: write_def Let_def processBlock_def split: prod.split)

lemma writes_totalLength_update:
  "foldl write (s\<lparr>totalLength := t\<rparr>) bs = (foldl write s bs)\<lparr>totalLength := t\<rparr>"
  by (induction bs arbitrary: s) (simp_all add: write_totalLength_update)

lemma totalLength_processBlock: "totalLength (processBlock s) = totalLength s"
  by (simp add: processBlock_def Let_def split: prod.split)

lemma totalLength_write: "totalLength (write s b) = totalLength s"
  by (simp add: write_def Let_def totalLength_processBlock)

lemma totalLength_writes: "totalLength (foldl write s bs) = totalLength s"
  by (induction bs arbitrary: s) (simp_all add: totalLength_write)

lemma update_writes:
  "update s c = (foldl write s (chunk_bytes c))\<lparr>totalLength := totalLength s + 8 * int (length (chunk_bytes c))\<rparr>"
proof (cases c)
  case (Str str)
  have "foldl (\<lambda>s c. write s (uint c)) s' str = foldl write s' (map uint str)" for s'
    by (induction str arbitrary: s') simp_all
  then show ?thesis
    by (simp add: Str update_def updateString_def chunk_bytes_def mult.commute
        writes_totalLength_update)
next
  case (Arr xs)
  then show ?thesis
    by (simp add: update_def chunk_bytes_def mult.commute writes_totalLength_update)
qed

lemma updates_writes:
  "foldl update s cs =
     (foldl write s (concat (map chunk_bytes cs)))
       \<lparr>totalLength := totalLength s + 8 * int (length (concat (map chunk_bytes cs)))\<rparr>"
proof (induction cs arbitrary: s)
  case Nil
  then show ?case by simp
next
  case (Cons c cs)
  have "foldl update s (c # cs) = foldl update (update s c) cs"
    by simp
  also have "\<dots> = (foldl write (update s c) (concat (map chunk_bytes cs)))
       \<lparr>totalLength := totalLength (update s c) + 8 * int (length (concat (map chunk_bytes cs)))\<rparr>"
    by (rule Cons.IH)
  also have "\<dots> = (foldl write s (concat (map chunk_bytes (c # cs))))
       \<lparr>totalLength := totalLength s + 8 * int (length (concat (map chunk_bytes (c # cs))))\<rparr>"
    by (simp add: update_writes writes_totalLength_update totalLength_writes algebra_simps)
  finally show ?case .
qed

lemma updates_one_update: "foldl update s cs = update s (Arr (concat (map chunk_bytes cs)))"
  by (simp add: updates_writes update_writes chunk_bytes_def)

lemma updates_strings: "foldl update s (map Str strs) = update s (Str (concat strs))"
  by (simp add: updates_writes update_writes chunk_bytes_def comp_def map_concat)


lemma sint_small: "0 \<le> k \<Longrightarrow> k < 2 ^ 31 \<Longrightarrow> sint (word_of_int k :: u32) = k"
  by (simp add: sint_sbintrunc' signed_take_bit_int_eq_self)

lemma and_255: "(word_of_int v :: u32) AND 255 = word_of_int (v mod 256)"
proof -
  have "(word_of_int v :: u32) AND mask 8 = word_of_int (take_bit 8 v)"
    by (simp add: take_bit_eq_mask [symmetric] take_bit_of_int)
  then show ?thesis by (simp add: take_bit_eq_mod mask_eq_exp_minus_1)
qed

lemma js_and_255: "js_and v 0xff = v mod 256"
proof -
  have "0 \<le> v mod 256" "v mod 256 < 2 ^ 31"
    by (simp_all add: order_less_trans [OF pos_mod_bound])
  then have "sint (word_of_int (v mod 256) :: u32) = v mod 256"
    by (rule sint_small)
  then show ?thesis by (simp add: js_and_def ToInt32_def and_255)
qed

lemma write_mod: "write s (v mod 256) = write s v"
  by (simp add: write_def js_and_255)

lemma writes_mod: "foldl write s (map (\<lambda>v. v mod 256) xs) = foldl write s xs"
  by (induction xs arbitrary: s) (simp_all add: write_mod)


section \<open>Output shape\<close>

lemma and_15: "(word_of_int v :: u32) AND 15 = word_of_int (v mod 16)"
proof -
  have "(word_of_int v :: u32) AND mask 4 = word_of_int (take_bit 4 v)"
    by (simp add: take_bit_eq_mask [symmetric] take_bit_of_int)
  then show ?thesis by (simp add: take_bit_eq_mod mask_eq_exp_minus_1)
qed

lemma js_and_15: "js_and v 0xf = v mod 16"
proof -
  have "0 \<le> v mod 16" "v mod 16 < 2 ^ 31"
    by (simp_all add: order_less_trans [OF pos_mod_bound])
  then have "sint (word_of_int (v mod 16) :: u32) = v mod 16"
    by (rule sint_small)
  then show ?thesis by (simp add: js_and_def ToInt32_def and_15)
qed

lemma toString16_nibble: "toString16 (js_and v 0xf) = [hexchar (nat (v mod 16))]"
proof -
  have "nat (v mod 16) < 16" by (simp add: nat_less_iff)
  then show ?thesis by (simp add: toString16_def js_and_15)
qed

lemma hexchar_mem: "n < 16 \<Longrightarrow> hexchar n \<in> set ''0123456789abcdef''"
  unfolding hexchar_def by (rule nth_mem) simp

lemma toHex_nibbles:
  "toHex w = map (\<lambda>i. hexchar (nat (js_shr w i mod 16))) [28, 24, 20, 16, 12, 8, 4, 0]"
  by (simp add: toHex_def toString16_nibble)

lemma toHex_shape: "length (toHex w) = 8 \<and> set (toHex w) \<subseteq> set ''0123456789abcdef''"
proof -
  define H where "H = set ''0123456789abcdef''"
  have m: "hexchar (nat (k mod 16)) \<in> H" for k :: int
    unfolding H_def by (rule hexchar_mem) (simp add: nat_less_iff)
  have sub: "set (toHex w) \<subseteq> H"
    unfolding toHex_nibbles using m by auto
  have len: "length (toHex w) = 8"
    by (simp add: toHex_nibbles)
  show ?thesis
    by (rule conjI [OF len sub [unfolded H_def]])
qed

lemma hex_state_shape:
  "length (hex_state s) = 40 \<and> set (hex_state s) \<subseteq> set ''0123456789abcdef''"
proof -
  define H where "H = set ''0123456789abcdef''"
  have t: "length (toHex w) = 8 \<and> set (toHex w) \<subseteq> H" for w
    unfolding H_def by (rule toHex_shape)
  have "length (hex_state s) = 40 \<and> set (hex_state s) \<subseteq> H"
    using t [of "h0 s"] t [of "h1 s"] t [of "h2 s"] t [of "h3 s"] t [of "h4 s"]
    by (simp add: hex_state_def)
  then show ?thesis
    unfolding H_def .
qed

lemma digest_fst: "fst (digest s) = hex_state (snd (digest s))"
  by (simp add: digest_def Let_def)


section \<open>The fields after processBlock and write\<close>

lemma offset_processBlock: "offset (processBlock s) = 0"
  by (simp add: processBlock_def Let_def split: prod.split)

lemma shift_processBlock: "shift (processBlock s) = shift s"
  by (simp add: processBlock_def Let_def split: prod.split)

lemma block_processBlock: "block (processBlock s) = zero_block (extend (block s))"
  by (simp add: processBlock_def Let_def split: prod.split)

lemma processed_processBlock:
  "processed (processBlock s) = processed s @ [map (block s) [0..<16]]"
  by (simp add: processBlock_def Let_def split: prod.split)

lemma stored_word:
  "0 \<le> shift s \<Longrightarrow> shift s < 32 \<Longrightarrow>
   (block s)(offset s :=
      ToInt32 (js_or (uint (block s (offset s))) (js_shl (js_and byte 0xff) (shift s)))) =
   stored s byte"
  by (simp add: stored_def ToInt32_simps js_shl_def) (simp add: ToInt32_def)

lemma cursor_ok_shift: "cursor_ok s \<Longrightarrow> 0 \<le> shift s \<and> shift s < 32"
  by (auto simp add: cursor_ok_def)

lemma write_same_word:
  "cursor_ok s \<Longrightarrow> shift s \<noteq> 0 \<Longrightarrow>
   write s b = s\<lparr>block := stored s b, shift := shift s - 8\<rparr>"
  using cursor_ok_shift [of s]
  by (simp add: write_def Let_def stored_word) (simp add: cursor_ok_def)

lemma write_next_word:
  "cursor_ok s \<Longrightarrow> shift s = 0 \<Longrightarrow> offset s < 15 \<Longrightarrow>
   write s b = s\<lparr>block := stored s b, offset := Suc (offset s), shift := 24\<rparr>"
  using stored_word [of s b]
  by (simp add: write_def Let_def)

lemma write_last_word:
  "shift s = 0 \<Longrightarrow> offset s = 15 \<Longrightarrow>
   write s b = processBlock (s\<lparr>block := stored s b, offset := 16, shift := 24\<rparr>)"
  using stored_word [of s b]
  by (simp add: write_def Let_def)

lemma write_cases:
  assumes "cursor_ok s"
  shows "(shift s \<noteq> 0 \<and> write s b = s\<lparr>block := stored s b, shift := shift s - 8\<rparr>)
    \<or> (shift s = 0 \<and> offset s < 15
        \<and> write s b = s\<lparr>block := stored s b, offset := Suc (offset s), shift := 24\<rparr>)
    \<or> (shift s = 0 \<and> offset s = 15
        \<and> write s b = processBlock (s\<lparr>block := stored s b, offset := 16, shift := 24\<rparr>))"
proof -
  have "offset s < 15 \<or> offset s = 15"
    using assms by (auto simp add: cursor_ok_def)
  then show ?thesis
    using assms write_same_word [of s b] write_next_word [of s b] write_last_word [of s b]
    by blast
qed

section \<open>Counting bytes\<close>

lemma cursor_ok_write: "cursor_ok s \<Longrightarrow> cursor_ok (write s b)"
  using write_cases [of s b]
  by (auto simp add: cursor_ok_def offset_processBlock shift_processBlock)

lemma count_write:
  "cursor_ok s \<Longrightarrow>
   64 * int (length (processed (write s b))) + written (write s b) =
   64 * int (length (processed s)) + written s + 1"
  using write_cases [of s b]
  by (auto simp add: cursor_ok_def written_def offset_processBlock shift_processBlock
      processed_processBlock)

lemma cursor_ok_writes: "cursor_ok s \<Longrightarrow> cursor_ok (foldl write s bs)"
  by (induction bs arbitrary: s) (simp_all add: cursor_ok_write)

lemma count_writes:
  "cursor_ok s \<Longrightarrow>
   64 * int (length (processed (foldl write s bs))) + written (foldl write s bs) =
   64 * int (length (processed s)) + written s + int (length bs)"
proof (induction bs arbitrary: s)
  case Nil
  then show ?case by simp
next
  case (Cons b bs)
  then show ?case
    using count_write [of s b] by (simp add: cursor_ok_write)
qed

lemma written_range: "cursor_ok s \<Longrightarrow> 0 \<le> written s \<and> written s < 64"
  by (auto simp add: cursor_ok_def written_def)

lemma cursor_ok_createJs: "cursor_ok (createJs sync sh)"
  by (simp add: cursor_ok_def createJs_def)

lemma cursor_ok_totalLength [simp]: "cursor_ok (s\<lparr>totalLength := t\<rparr>) = cursor_ok s"
  by (simp add: cursor_ok_def)

lemma written_totalLength [simp]: "written (s\<lparr>totalLength := t\<rparr>) = written s"
  by (simp add: written_def)

lemma cursor_ok_updates: "cursor_ok s \<Longrightarrow> cursor_ok (foldl update s cs)"
  by (simp add: updates_writes cursor_ok_writes)

lemma count_fresh:
  fixes cs sync sh
  defines "s \<equiv> foldl update (createJs sync sh) cs"
    and "n \<equiv> length (concat (map chunk_bytes cs))"
  shows "64 * int (length (processed s)) + written s = int n" and "totalLength s = 8 * int n"
proof -
  have "64 * int (length (processed s)) + written s =
      64 * int (length (processed (createJs sync sh))) + written (createJs sync sh) + int n"
    unfolding s_def n_def
    by (simp add: updates_writes count_writes cursor_ok_createJs)
  then show "64 * int (length (processed s)) + written s = int n"
    by (simp add: createJs_def written_def)
  show "totalLength s = 8 * int n"
    unfolding s_def n_def by (simp add: updates_writes createJs_def)
qed

lemma engine_invariant:
  fixes cs sync sh
  defines "s \<equiv> foldl update (createJs sync sh) cs"
    and "n \<equiv> length (concat (map chunk_bytes cs))"
  shows "offset s < 16 \<and> shift s \<in> {24, 16, 8, 0}
    \<and> written s = int (n mod 64) \<and> length (processed s) = n div 64
    \<and> (64 * int (length (processed s)) + written s) * 8 = totalLength s"
proof -
  have ok: "cursor_ok s"
    unfolding s_def by (simp add: cursor_ok_updates cursor_ok_createJs)
  have c: "64 * int (length (processed s)) + written s = int n" and t: "totalLength s = 8 * int n"
    unfolding s_def n_def by (rule count_fresh)+
  have r: "0 \<le> written s" "written s < 64"
    using written_range [OF ok] by simp_all
  define w where "w = nat (written s)"
  have ws: "written s = int w" and w64: "w < 64"
    using r by (simp_all add: w_def)
  have "n = 64 * length (processed s) + w"
    using c ws by linarith
  then have "n mod 64 = w" "n div 64 = length (processed s)"
    using w64 by simp_all
  then have "written s = int (n mod 64)" "length (processed s) = n div 64"
    using ws by simp_all
  then show ?thesis
    using ok c t by (simp add: cursor_ok_def)
qed


section \<open>Zero padding\<close>

lemma zero_from_iff:
  "zero_from blk off sh \<longleftrightarrow>
     take_bit (nat sh + 8) (blk off) = 0 \<and> (\<forall>i. off < i \<and> i < 16 \<longrightarrow> blk i = 0)"
  by (auto simp add: zero_from_def list_all_iff)

lemma clean_iff: "clean blk \<longleftrightarrow> (\<forall>i < 16. blk i = 0)"
  by (auto simp add: clean_def list_all_iff)

lemma take_bit_less_zero:
  "take_bit (n + 8) (w :: u32) = 0 \<Longrightarrow> take_bit n w = 0"
proof -
  assume "take_bit (n + 8) w = 0"
  then have "take_bit n (take_bit (n + 8) w) = 0" by simp
  then show ?thesis by (simp add: min_def)
qed

lemma stored_low_zero:
  "take_bit (n + 8) (w :: u32) = 0 \<Longrightarrow> take_bit n (w OR push_bit n x) = 0"
  using take_bit_less_zero [of n w]
  by (simp add: take_bit_push_bit)

lemma zero_from_write:
  assumes ok: "cursor_ok s" and z: "zero_from (block s) (offset s) (shift s)"
  shows "zero_from (block (write s b)) (offset (write s b)) (shift (write s b))"
proof -
  consider (same) "shift s \<noteq> 0" "write s b = s\<lparr>block := stored s b, shift := shift s - 8\<rparr>"
    | (nxt) "shift s = 0" "offset s < 15"
        "write s b = s\<lparr>block := stored s b, offset := Suc (offset s), shift := 24\<rparr>"
    | (lst) "write s b = processBlock (s\<lparr>block := stored s b, offset := 16, shift := 24\<rparr>)"
    using write_cases [OF ok, of b] by blast
  then show ?thesis
  proof cases
    case same
    have sh: "0 < shift s" "nat (shift s - 8) + 8 = nat (shift s)"
      using ok same(1) by (auto simp add: cursor_ok_def)
    have "stored s b (offset s) =
        block s (offset s) OR push_bit (nat (shift s)) (ToInt32 b AND 0xff)"
      by (simp add: stored_def)
    moreover have "take_bit (nat (shift s) + 8) (block s (offset s)) = 0"
      using z by (simp add: zero_from_iff)
    ultimately have "take_bit (nat (shift s)) (stored s b (offset s)) = 0"
      by (simp only: stored_low_zero)
    then show ?thesis
      using z by (simp add: same(2) sh zero_from_iff stored_def)
  next
    case nxt
    then show ?thesis
      using z by (simp add: zero_from_iff stored_def)
  next
    case lst
    then show ?thesis
      by (simp add: zero_from_iff block_processBlock offset_processBlock shift_processBlock
          zero_block_apply)
  qed
qed

lemma zero_from_writes:
  "cursor_ok s \<Longrightarrow> zero_from (block s) (offset s) (shift s) \<Longrightarrow>
   zero_from (block (foldl write s bs)) (offset (foldl write s bs)) (shift (foldl write s bs))"
  by (induction bs arbitrary: s) (simp_all add: zero_from_write cursor_ok_write)

lemma zero_from_createJs:
  "sync \<longrightarrow> clean sh \<Longrightarrow>
   zero_from (block (createJs sync sh)) (offset (createJs sync sh)) (shift (createJs sync sh))"
  by (simp add: createJs_def zero_from_iff clean_iff new_Uint32Array_def)

lemma zero_from_updates:
  "cursor_ok s \<Longrightarrow> zero_from (block s) (offset s) (shift s) \<Longrightarrow>
   zero_from (block (foldl update s cs)) (offset (foldl update s cs)) (shift (foldl update s cs))"
  by (simp add: updates_writes zero_from_writes)


section \<open>Four bytes into one word\<close>

lemma four_writes:
  assumes "shift s = 24" "offset s = k" "k < 15"
  shows "foldl write s [b0, b1, b2, b3] =
    s\<lparr>block := (block s)(k := block s k OR packed b0 b1 b2 b3), offset := Suc k, shift := 24\<rparr>"
  using assms
  by (simp add: write_same_word write_next_word cursor_ok_def stored_def packed_def or.assoc)

lemma four_writes_last:
  assumes "shift s = 24" "offset s = 15"
  shows "foldl write s [b0, b1, b2, b3] =
    processBlock
      (s\<lparr>block := (block s)(15 := block s 15 OR packed b0 b1 b2 b3), offset := 16, shift := 24\<rparr>)"
  using assms
  by (simp add: write_same_word write_last_word cursor_ok_def stored_def packed_def or.assoc)

lemma length_bytes_split:
  "length_bytes len =
     [0, 0, (if len > 0xffffffffff then len div 0x10000000000 else 0),
            (if len > 0xffffffff then len div 0x100000000 else 0)]
     @ [js_shr len 24, js_shr len 16, js_shr len 8, js_shr len 0]"
  by (simp add: length_bytes_def)

lemma digest_length_final:
  assumes "offset s = 14" "shift s = 24"
  shows "digest_length s =
    processBlock
      (s\<lparr>block := (block s)(14 := block s 14 OR len_hi (totalLength s),
                               15 := block s 15 OR len_lo (totalLength s)),
         offset := 16, shift := 24\<rparr>)"
proof -
  let ?hi = "[0, 0, (if totalLength s > 0xffffffffff then totalLength s div 0x10000000000 else 0),
            (if totalLength s > 0xffffffff then totalLength s div 0x100000000 else 0)]"
  let ?lo = "[js_shr (totalLength s) 24, js_shr (totalLength s) 16, js_shr (totalLength s) 8,
            js_shr (totalLength s) 0]"
  let ?s1 = "s\<lparr>block := (block s)(14 := block s 14 OR len_hi (totalLength s)),
               offset := Suc 14, shift := 24\<rparr>"
  have "digest_length s = foldl write (foldl write s ?hi) ?lo"
    unfolding digest_length_def length_bytes_split foldl_append ..
  also have "foldl write s ?hi = ?s1"
    unfolding len_hi_def by (rule four_writes) (simp_all add: assms)
  also have "foldl write ?s1 ?lo =
      processBlock (?s1\<lparr>block := (block ?s1)(15 := block ?s1 15 OR len_lo (totalLength s)),
         offset := 16, shift := 24\<rparr>)"
    unfolding len_lo_def by (rule four_writes_last) simp_all
  finally show ?thesis by simp
qed


section \<open>The length words\<close>

lemma and_255_take_bit: "(w :: u32) AND 255 = take_bit 8 w"
  by (simp add: take_bit_eq_mask mask_eq_exp_minus_1)

lemma bit_packed:
  "bit (packed b0 b1 b2 b3) n \<longleftrightarrow>
     (24 \<le> n \<and> n < 32 \<and> bit (ToInt32 b0) (n - 24))
     \<or> (16 \<le> n \<and> n < 24 \<and> bit (ToInt32 b1) (n - 16))
     \<or> (8 \<le> n \<and> n < 16 \<and> bit (ToInt32 b2) (n - 8))
     \<or> (n < 8 \<and> bit (ToInt32 b3) n)"
  unfolding packed_def and_255_take_bit
  by (auto simp add: bit_simps)

lemma bit_ToInt32_shr:
  "k + n < 32 \<Longrightarrow> bit (ToInt32 (js_shr len (int k))) n \<longleftrightarrow> bit (ToInt32 len) (k + n)"
  by (auto simp add: js_shr_def ToInt32_sint bit_signed_drop_bit_iff)

lemma len_lo_word: "len_lo len = ToInt32 len"
proof (rule bit_word_eqI)
  fix n assume n: "n < LENGTH(32)"
  have s: "bit (ToInt32 (js_shr len 24)) (n - 24) \<longleftrightarrow> bit (ToInt32 len) n" if "24 \<le> n"
    using bit_ToInt32_shr [of 24 "n - 24" len] n that by simp
  have t: "bit (ToInt32 (js_shr len 16)) (n - 16) \<longleftrightarrow> bit (ToInt32 len) n" if "16 \<le> n"
    using bit_ToInt32_shr [of 16 "n - 16" len] n that by simp
  have u: "bit (ToInt32 (js_shr len 8)) (n - 8) \<longleftrightarrow> bit (ToInt32 len) n" if "8 \<le> n"
    using bit_ToInt32_shr [of 8 "n - 8" len] n that by simp
  have v: "bit (ToInt32 (js_shr len 0)) n \<longleftrightarrow> bit (ToInt32 len) n"
    using bit_ToInt32_shr [of 0 n len] n by simp
  show "bit (len_lo len) n = bit (ToInt32 len) n"
    unfolding len_lo_def bit_packed using n s t u v
    by (cases "24 \<le> n"; cases "16 \<le> n"; cases "8 \<le> n") auto
qed

lemma bit_ToInt32_div:
  "bit (ToInt32 (len div 2 ^ k)) n \<longleftrightarrow> n < 32 \<and> bit len (k + n)"
proof -
  have "len div 2 ^ k = drop_bit k len"
    by (simp add: drop_bit_eq_div)
  then show ?thesis
    by (simp add: ToInt32_def bit_word_of_int_iff bit_drop_bit_eq)
qed

lemma len_hi_word:
  assumes "0 \<le> len"
  shows "len_hi len = ToInt32 ((len div 2 ^ 32) mod 2 ^ 16)"
proof (rule bit_word_eqI)
  fix n assume n: "n < LENGTH(32)"
  have b2: "(if len > 0xffffffffff then len div 0x10000000000 else 0) = len div 2 ^ 40"
    using assms by simp
  have b3: "(if len > 0xffffffff then len div 0x100000000 else 0) = len div 2 ^ 32"
    using assms by simp
  have r: "bit (ToInt32 ((len div 2 ^ 32) mod 2 ^ 16)) n \<longleftrightarrow> n < 16 \<and> bit len (32 + n)"
  proof -
    have "(len div 2 ^ 32) mod 2 ^ 16 = take_bit 16 (drop_bit 32 len)"
      by (simp add: drop_bit_eq_div take_bit_eq_mod)
    then show ?thesis
      using n by (simp add: ToInt32_def bit_word_of_int_iff bit_drop_bit_eq bit_take_bit_iff)
  qed
  have z: "\<not> bit (ToInt32 0) m" for m
    by (simp add: ToInt32_def)
  show "bit (len_hi len) n = bit (ToInt32 ((len div 2 ^ 32) mod 2 ^ 16)) n"
    unfolding len_hi_def b2 b3 bit_packed r bit_ToInt32_div using n z
    by (cases "8 \<le> n") auto
qed


section \<open>The padding of digest\<close>

lemma digest_pad_cursor: "offset (digest_pad s) = 14 \<and> shift (digest_pad s) = 24"
  by (simp add: digest_pad_def Let_def)

lemma totalLength_digest_pad: "totalLength (digest_pad s) = totalLength s"
  by (simp add: digest_pad_def Let_def totalLength_write totalLength_processBlock)

lemma digest_pad_extra:
  "offset (write s 0x80) > 14 \<or> (offset (write s 0x80) = 14 \<and> shift (write s 0x80) < 24) \<Longrightarrow>
   digest_pad s = (processBlock (write s 0x80))\<lparr>offset := 14, shift := 24\<rparr>"
  by (simp add: digest_pad_def Let_def)

lemma digest_pad_plain:
  "\<not> (offset (write s 0x80) > 14 \<or> (offset (write s 0x80) = 14 \<and> shift (write s 0x80) < 24)) \<Longrightarrow>
   digest_pad s = (write s 0x80)\<lparr>offset := 14, shift := 24\<rparr>"
  by (auto simp add: digest_pad_def Let_def)

lemma digest_pad_shape:
  assumes ok: "cursor_ok s" and z: "zero_from (block s) (offset s) (shift s)"
  defines "s1 \<equiv> write s 0x80"
  shows "zero_from (block s1) (offset s1) (shift s1)
    \<and> (if offset s1 > 14 \<or> (offset s1 = 14 \<and> shift s1 < 24)
        then processed (digest_pad s) = processed s1 @ [map (block s1) [0..<16]]
          \<and> clean (block (digest_pad s))
        else processed (digest_pad s) = processed s1 \<and> block (digest_pad s) = block s1)
    \<and> offset (digest_pad s) = 14 \<and> shift (digest_pad s) = 24"
proof -
  have z1: "zero_from (block s1) (offset s1) (shift s1)"
    unfolding s1_def by (rule zero_from_write [OF ok z])
  show ?thesis
  proof (cases "offset s1 > 14 \<or> (offset s1 = 14 \<and> shift s1 < 24)")
    case True
    then have "digest_pad s = (processBlock s1)\<lparr>offset := 14, shift := 24\<rparr>"
      unfolding s1_def by (rule digest_pad_extra)
    then show ?thesis
      using True z1
      by (simp add: processed_processBlock block_processBlock clean_iff zero_block_apply)
  next
    case False
    then have "digest_pad s = s1\<lparr>offset := 14, shift := 24\<rparr>"
      unfolding s1_def by (rule digest_pad_plain)
    then show ?thesis
      using False z1 by simp
  qed
qed

lemma take_bit_32: "take_bit 32 (w :: u32) = w"
  using take_bit_length_eq [of w] by simp

lemma digest_pad_length_words_zero:
  assumes ok: "cursor_ok s" and z: "zero_from (block s) (offset s) (shift s)"
  shows "block (digest_pad s) 14 = 0 \<and> block (digest_pad s) 15 = 0"
proof -
  let ?s1 = "write s 0x80"
  have ok1: "cursor_ok ?s1"
    by (rule cursor_ok_write [OF ok])
  have z1: "zero_from (block ?s1) (offset ?s1) (shift ?s1)"
    by (rule zero_from_write [OF ok z])
  show ?thesis
  proof (cases "offset ?s1 > 14 \<or> (offset ?s1 = 14 \<and> shift ?s1 < 24)")
    case True
    then show ?thesis
      by (simp add: digest_pad_extra block_processBlock zero_block_apply)
  next
    case False
    then have b: "block (digest_pad s) = block ?s1"
      by (simp add: digest_pad_plain)
    have "offset ?s1 < 14 \<or> (offset ?s1 = 14 \<and> shift ?s1 = 24)"
      using False ok1 by (auto simp add: cursor_ok_def)
    then show ?thesis
      using z1 by (auto simp add: b zero_from_iff take_bit_32)
  qed
qed

section \<open>The final block\<close>

lemma digest_final:
  "snd (digest s) =
     processBlock
       ((digest_pad s)\<lparr>block := (block (digest_pad s))
            (14 := block (digest_pad s) 14 OR len_hi (totalLength s),
             15 := block (digest_pad s) 15 OR len_lo (totalLength s)),
          offset := 16, shift := 24\<rparr>)"
  using digest_length_final [of "digest_pad s"]
  by (simp add: digest_def Let_def digest_pad_cursor totalLength_digest_pad)

lemma digest_processed:
  "processed (snd (digest s)) =
     processed (digest_pad s) @
       [map ((block (digest_pad s))
            (14 := block (digest_pad s) 14 OR len_hi (totalLength s),
             15 := block (digest_pad s) 15 OR len_lo (totalLength s))) [0..<16]]"
  by (simp add: digest_final processed_processBlock)

lemma digest_clean: "clean (block (snd (digest s)))"
  by (simp add: digest_final block_processBlock clean_iff zero_block_apply)

lemma digest_cursor: "offset (snd (digest s)) = 0 \<and> shift (snd (digest s)) = 24"
  by (simp add: digest_final offset_processBlock shift_processBlock)

lemma totalLength_digest: "totalLength (snd (digest s)) = totalLength s"
  by (simp add: digest_final totalLength_processBlock totalLength_digest_pad)

lemma final_block_words:
  "last (processed (snd (digest s))) ! 14 = block (digest_pad s) 14 OR len_hi (totalLength s)"
  "last (processed (snd (digest s))) ! 15 = block (digest_pad s) 15 OR len_lo (totalLength s)"
  "i < 14 \<Longrightarrow> last (processed (snd (digest s))) ! i = block (digest_pad s) i"
  by (simp_all add: digest_processed del: upt_Suc)


section \<open>The scratch words do not matter\<close>

lemma spec_w_cong:
  assumes "\<forall>i < 16. m i = m' i"
  shows "spec_w m j = spec_w m' j"
proof (induction j rule: less_induct)
  case (less j)
  show ?case
  proof (cases "j < 16")
    case True
    then show ?thesis using assms by (simp add: spec_w_lt)
  next
    case False
    then have "j - 3 < j" "j - 8 < j" "j - 14 < j" "j - 16 < j" "16 \<le> j"
      by simp_all
    then show ?thesis
      by (simp add: spec_w_ge [of j] less.IH)
  qed
qed

lemma spec_processBlock_cong:
  assumes "\<forall>i < 16. m i = m' i"
  shows "spec_processBlock c m = spec_processBlock c m'"
proof -
  have "spec_round m i v = spec_round m' i v" for i v
    by (cases v) (simp add: spec_w_cong [OF assms])
  then have "spec_round m = spec_round m'"
    by (intro ext)
  then show ?thesis
    by (cases c) (simp add: spec_rounds_def)
qed

lemma agree_processBlock:
  assumes "agree s t"
  shows "agree (processBlock s) (processBlock t)"
proof -
  have b: "\<forall>i < 16. block s i = block t i" and c: "chain_of s = chain_of t"
    using assms by (simp_all add: agree_def chain_of_def)
  have m: "map (block s) [0..<16] = map (block t) [0..<16]"
    using b by simp
  obtain A B C D E where r: "spec_processBlock (chain_of s) (block s) = (A, B, C, D, E)"
    by (metis prod_cases5)
  then have r': "spec_processBlock (chain_of t) (block t) = (A, B, C, D, E)"
    using spec_processBlock_cong [OF b, of "chain_of s"] c by simp
  show ?thesis
    using assms m
    by (simp add: processBlock_words [of s] processBlock_words [of t] r r' agree_def
        zero_block_apply)
qed

lemma agree_write:
  assumes "agree s t"
  shows "agree (write s b) (write t b)"
proof -
  let ?f = "\<lambda>s. s\<lparr>block := (block s)(offset s :=
      ToInt32 (js_or (uint (block s (offset s))) (js_shl (js_and b 0xff) (shift s))))\<rparr>"
  let ?g = "\<lambda>s1. if shift s1 \<noteq> 0 then s1\<lparr>shift := shift s1 - 8\<rparr>
      else s1\<lparr>offset := offset s1 + 1, shift := 24\<rparr>"
  have w: "write u b = (if offset (?g (?f u)) = 16 then processBlock (?g (?f u)) else ?g (?f u))" for u
    by (simp add: write_def Let_def)
  have a: "agree (?g (?f s)) (?g (?f t))"
    using assms by (simp add: agree_def)
  then have "offset (?g (?f s)) = offset (?g (?f t))"
    by (simp add: agree_def)
  then show ?thesis
    unfolding w [of s] w [of t] using a agree_processBlock [OF a] by simp
qed

lemma agree_writes: "agree s t \<Longrightarrow> agree (foldl write s bs) (foldl write t bs)"
  by (induction bs arbitrary: s t) (simp_all add: agree_write)

lemma agree_totalLength:
  "agree s t \<Longrightarrow> agree (s\<lparr>totalLength := x\<rparr>) (t\<lparr>totalLength := x\<rparr>)"
  by (simp add: agree_def)

lemma agree_updates: "agree s t \<Longrightarrow> agree (foldl update s cs) (foldl update t cs)"
  by (simp add: updates_writes) (simp add: agree_def agree_writes [of s t, unfolded agree_def])

lemma agree_digest_pad: "agree s t \<Longrightarrow> agree (digest_pad s) (digest_pad t)"
proof -
  assume "agree s t"
  then have a: "agree (write s 0x80) (write t 0x80)"
    by (rule agree_write)
  then have c: "offset (write s 0x80) = offset (write t 0x80)" "shift (write s 0x80) = shift (write t 0x80)"
    by (simp_all add: agree_def)
  have "agree (u\<lparr>offset := 14, shift := 24\<rparr>) (v\<lparr>offset := 14, shift := 24\<rparr>)" if "agree u v" for u v
    using that by (simp add: agree_def)
  then show ?thesis
    using a agree_processBlock [OF a] by (simp add: digest_pad_def Let_def c)
qed

lemma agree_digest:
  assumes "agree s t"
  shows "fst (digest s) = fst (digest t) \<and> agree (snd (digest s)) (snd (digest t))"
proof -
  have p: "agree (digest_pad s) (digest_pad t)"
    by (rule agree_digest_pad [OF assms])
  then have "totalLength (digest_pad s) = totalLength (digest_pad t)"
    by (simp add: agree_def)
  then have "agree (digest_length (digest_pad s)) (digest_length (digest_pad t))"
    using agree_writes [OF p] by (simp add: digest_length_def)
  then show ?thesis
    by (simp add: digest_def Let_def hex_state_def agree_def)
qed

lemma agree_createJs: "clean sh \<Longrightarrow> agree (createJs True sh) (createJs False sh')"
  by (simp add: agree_def createJs_def clean_iff new_Uint32Array_def)

lemma sha1_digest:
  "sha1 sh buf =
     (fst (digest (update (createJs True sh) (Str buf))),
      block (snd (digest (update (createJs True sh) (Str buf)))))"
  by (simp add: sha1_def Let_def split: prod.split)

lemma sha1_clean: "clean (snd (sha1 sh buf))"
  by (simp add: sha1_digest digest_clean)

lemma shared_no_leak:
  "clean sh \<Longrightarrow>
   fst (digest (foldl update (createJs True sh) cs)) = fst (digest (foldl update (createJs False sh') cs))"
  using agree_digest [OF agree_updates [OF agree_createJs]] by blast

lemma update_as_updates: "update s c = foldl update s [c]"
  by simp

lemma sha1_no_leak: "clean sh \<Longrightarrow> fst (sha1 sh buf) = fst (sha1 new_Uint32Array buf)"
proof -
  have n: "clean new_Uint32Array"
    by (simp add: clean_iff new_Uint32Array_def)
  assume "clean sh"
  then show ?thesis
    using shared_no_leak [of sh "[Str buf]" sh] shared_no_leak [OF n, of "[Str buf]" sh]
    by (simp add: sha1_digest)
qed


section \<open>The module's array\<close>

lemma clean_new: "clean new_Uint32Array"
  by (simp add: clean_iff new_Uint32Array_def)

lemma clean_shared_after: "clean (shared_after bufs)"
proof (cases bufs rule: rev_cases)
  case Nil
  then show ?thesis by (simp add: shared_after_def clean_new)
next
  case (snoc bs b)
  then show ?thesis by (simp add: shared_after_def sha1_clean)
qed

lemma fresh_ok: "cursor_ok (foldl update (createJs sync sh) cs)"
  by (simp add: cursor_ok_updates cursor_ok_createJs)

lemma fresh_zero:
  "sync \<longrightarrow> clean sh \<Longrightarrow>
   zero_from (block (foldl update (createJs sync sh) cs)) (offset (foldl update (createJs sync sh) cs))
     (shift (foldl update (createJs sync sh) cs))"
  by (simp add: zero_from_updates cursor_ok_createJs zero_from_createJs)

lemma fresh_totalLength:
  "totalLength (foldl update (createJs sync sh) cs) = 8 * int (total_bytes cs)"
  unfolding total_bytes_def by (rule count_fresh(2))

text \<open>
  C2. Chunking independence: on a fresh engine, feeding the chunks \<open>c1 .. cn\<close> one
  \<^verbatim>\<open>update\<close> at a time and then calling \<^verbatim>\<open>digest\<close> returns the same string as one
  \<^verbatim>\<open>update\<close> with their concatenation followed by \<^verbatim>\<open>digest\<close>. The chunks may be
  arrays, strings or a mix of both, of any length, empty chunks and single bytes included.
\<close>

theorem chunking_independence:
  "fst (digest (foldl update (createJs sync sh) cs)) =
     fst (digest (update (createJs sync sh) (Arr (concat (map chunk_bytes cs)))))
   \<and> fst (digest (foldl update (createJs sync sh) (map Arr xss))) =
     fst (digest (update (createJs sync sh) (Arr (concat xss))))
   \<and> fst (digest (foldl update (createJs sync sh) (map Str strs))) =
     fst (digest (update (createJs sync sh) (Str (concat strs))))"
proof (intro conjI)
  show "fst (digest (foldl update (createJs sync sh) cs)) =
     fst (digest (update (createJs sync sh) (Arr (concat (map chunk_bytes cs)))))"
    by (simp only: updates_one_update)
  have "map chunk_bytes (map Arr xss) = xss"
    by (induction xss) (simp_all add: chunk_bytes_def)
  then show "fst (digest (foldl update (createJs sync sh) (map Arr xss))) =
     fst (digest (update (createJs sync sh) (Arr (concat xss))))"
    by (simp only: updates_one_update)
  show "fst (digest (foldl update (createJs sync sh) (map Str strs))) =
     fst (digest (update (createJs sync sh) (Str (concat strs))))"
    by (simp only: updates_strings)
qed

text \<open>
  C6. After construction and after every completed \<^verbatim>\<open>update\<close>, the word offset is
  in 0..15, the byte shift is one of 24, 16, 8, 0, the count
  \<open>offset * 4 + (3 - shift / 8)\<close> is the number of bytes of the current partial
  block (the bytes consumed modulo 64), the number of processed blocks is the bytes
  consumed divided by 64, and 64 times the processed blocks plus the partial count,
  times 8, is \<^verbatim>\<open>totalLength\<close>.
\<close>

theorem cursor_invariant:
  "offset (foldl update (createJs sync sh) cs) < 16
   \<and> shift (foldl update (createJs sync sh) cs) \<in> {24, 16, 8, 0}
   \<and> written (foldl update (createJs sync sh) cs) = int (total_bytes cs mod 64)
   \<and> length (processed (foldl update (createJs sync sh) cs)) = total_bytes cs div 64
   \<and> (64 * int (length (processed (foldl update (createJs sync sh) cs)))
        + written (foldl update (createJs sync sh) cs)) * 8
       = totalLength (foldl update (createJs sync sh) cs)"
  unfolding total_bytes_def by (rule engine_invariant)

text \<open>
  C7. For every input and every chunking of it, the string that \<^verbatim>\<open>digest\<close> returns has
  exactly 40 characters, each of them one of \<open>0123456789abcdef\<close>.
\<close>

theorem digest_shape:
  "length (fst (digest (foldl update (createJs sync sh) cs))) = 40
   \<and> set (fst (digest (foldl update (createJs sync sh) cs))) \<subseteq> set ''0123456789abcdef''"
  unfolding digest_fst by (rule hex_state_shape)

text \<open>
  C10. Only the low eight bits of a value reach the block: replacing an element \<open>v\<close> of
  an array chunk by \<open>v mod 256\<close>, one element or all of them, leaves the engine state
  and the digest unchanged; a string chunk is hashed as the array of its code units
  modulo 256, code units of 256 or more included; and \<^verbatim>\<open>totalLength\<close> grows by 8 for
  every element or code unit.
\<close>

theorem low_eight_bits:
  "update s (Arr (xs[i := xs ! i mod 256])) = update s (Arr xs)
   \<and> update s (Arr (map (\<lambda>v. v mod 256) xs)) = update s (Arr xs)
   \<and> update s (Str str) = update s (Arr (map (\<lambda>c. uint c mod 256) str))
   \<and> fst (digest (update s (Arr (xs[i := xs ! i mod 256])))) = fst (digest (update s (Arr xs)))
   \<and> totalLength (update s (Arr xs)) = totalLength s + 8 * int (length xs)
   \<and> totalLength (update s (Str str)) = totalLength s + 8 * int (length str)"
proof -
  have m: "update s (Arr (map (\<lambda>v. v mod 256) ys)) = update s (Arr ys)" for ys
    by (simp add: update_writes chunk_bytes_def writes_mod)
  have "map (\<lambda>v. v mod 256) (xs[i := xs ! i mod 256]) = map (\<lambda>v. v mod 256) xs"
  proof (cases "i < length xs")
    case True
    then show ?thesis by (simp add: map_update list_update_same_conv)
  next
    case False
    then have "xs[i := xs ! i mod 256] = xs" by (simp add: list_update_beyond)
    then show ?thesis by simp
  qed
  then have u: "update s (Arr (xs[i := xs ! i mod 256])) = update s (Arr xs)"
    using m [of "xs[i := xs ! i mod 256]"] m [of xs] by simp
  have "foldl write s' (map (\<lambda>c. uint c mod 256) str) = foldl write s' (map uint str)" for s'
    using writes_mod [of s' "map uint str"] by (simp add: comp_def)
  then have t: "update s (Str str) = update s (Arr (map (\<lambda>c. uint c mod 256) str))"
    by (simp add: update_writes chunk_bytes_def)
  show ?thesis
    using m [of xs] u t by (simp add: update_writes chunk_bytes_def totalLength_writes)
qed


lemma uint_ToInt32: "uint (ToInt32 k) = k mod 2 ^ 32"
  by (simp add: ToInt32_def uint_word_of_int take_bit_eq_mod)

lemma final_length_words:
  fixes sync sh cs
  assumes "sync \<longrightarrow> clean sh"
  defines "S \<equiv> foldl update (createJs sync sh) cs"
  shows "last (processed (snd (digest S))) ! 14 = ToInt32 ((8 * int (total_bytes cs) div 2 ^ 32) mod 2 ^ 16)"
    and "last (processed (snd (digest S))) ! 15 = ToInt32 (8 * int (total_bytes cs))"
proof -
  have t: "totalLength S = 8 * int (total_bytes cs)"
    unfolding S_def by (rule fresh_totalLength)
  have z: "block (digest_pad S) 14 = 0 \<and> block (digest_pad S) 15 = 0"
    unfolding S_def by (rule digest_pad_length_words_zero [OF fresh_ok fresh_zero [OF assms(1)]])
  have "0 \<le> totalLength S"
    by (simp add: t)
  then have "len_hi (totalLength S) = ToInt32 ((totalLength S div 2 ^ 32) mod 2 ^ 16)"
    by (rule len_hi_word)
  then show "last (processed (snd (digest S))) ! 14 = ToInt32 ((8 * int (total_bytes cs) div 2 ^ 32) mod 2 ^ 16)"
    using z by (simp add: final_block_words(1) t)
  show "last (processed (snd (digest S))) ! 15 = ToInt32 (8 * int (total_bytes cs))"
    using z by (simp add: final_block_words(2) len_lo_word t)
qed

text \<open>
  C4. In \<^verbatim>\<open>digest\<close>, after the byte 0x80 has gone through \<^verbatim>\<open>write\<close>, all bytes of
  the block from the cursor on are zero. If the cursor is past word 14, or in word 14
  with that word partly filled, exactly one more block is processed, namely this
  zero-padded block, and the final block starts from sixteen zero words; otherwise no
  block is processed and the array is unchanged. In both cases the cursor is then at
  word 14, shift 24, and the first fourteen words of the final block are those of the
  array at that point: the bytes between the byte after 0x80 and word 14 are zero. The
  engine is any engine reachable from \<^verbatim>\<open>createJs\<close>, with its own array or with the
  module's array as earlier one-shot calls leave it.
\<close>

theorem digest_padding:
  fixes sync bufs cs
  defines "S \<equiv> foldl update (createJs sync (shared_after bufs)) cs"
  shows "zero_from (block (write S 0x80)) (offset (write S 0x80)) (shift (write S 0x80))
    \<and> (if offset (write S 0x80) > 14 \<or> (offset (write S 0x80) = 14 \<and> shift (write S 0x80) < 24)
        then processed (digest_pad S) = processed (write S 0x80) @ [map (block (write S 0x80)) [0..<16]]
          \<and> clean (block (digest_pad S))
        else processed (digest_pad S) = processed (write S 0x80)
          \<and> block (digest_pad S) = block (write S 0x80))
    \<and> offset (digest_pad S) = 14 \<and> shift (digest_pad S) = 24
    \<and> take 14 (last (processed (snd (digest S)))) = map (block (digest_pad S)) [0..<14]"
proof -
  have ok: "cursor_ok S"
    unfolding S_def by (rule fresh_ok)
  have z: "zero_from (block S) (offset S) (shift S)"
    unfolding S_def by (rule fresh_zero) (simp add: clean_shared_after)
  have "take 14 (last (processed (snd (digest S)))) = map (block (digest_pad S)) [0..<14]"
    by (rule nth_equalityI) (simp_all add: digest_processed del: upt_Suc)
  then show ?thesis
    using digest_pad_shape [OF ok z] by simp
qed

text \<open>
  C5, amended. For every input of fewer than \<open>2 ^ 45\<close> bytes, that is with
  \<^verbatim>\<open>totalLength\<close> below \<open>2 ^ 48\<close>, word 14 of the final block holds the high-order
  32 bits of the 64-bit bit length and word 15 its low-order 32 bits, and the bit length
  is 8 times the number of bytes consumed.
\<close>

theorem length_field:
  assumes "8 * int (total_bytes cs) < 2 ^ 48"
  shows "uint (last (processed (snd (digest (foldl update (createJs sync (shared_after bufs)) cs)))) ! 14)
      = 8 * int (total_bytes cs) div 2 ^ 32
    \<and> uint (last (processed (snd (digest (foldl update (createJs sync (shared_after bufs)) cs)))) ! 15)
      = 8 * int (total_bytes cs) mod 2 ^ 32
    \<and> totalLength (foldl update (createJs sync (shared_after bufs)) cs) = 8 * int (total_bytes cs)"
proof -
  have c: "sync \<longrightarrow> clean (shared_after bufs)"
    by (simp add: clean_shared_after)
  have "0 \<le> 8 * int (total_bytes cs) div 2 ^ 32" "8 * int (total_bytes cs) div 2 ^ 32 < 2 ^ 16"
    using assms by simp_all
  then have "(8 * int (total_bytes cs) div 2 ^ 32) mod 2 ^ 16 mod 2 ^ 32 = 8 * int (total_bytes cs) div 2 ^ 32"
    by simp
  then show ?thesis
    by (simp only: final_length_words [OF c] uint_ToInt32 fresh_totalLength)
qed

lemma total_bytes_replicate: "total_bytes (replicate n (Arr (replicate m x))) = n * m"
  by (induction n) (simp_all add: total_bytes_def chunk_bytes_def)

text \<open>
  The claim as stated fails at \<open>2 ^ 45\<close> bytes, fed as \<open>2 ^ 25\<close> arrays of
  \<open>2 ^ 20\<close> zero bytes: the bit length is \<open>2 ^ 48\<close>, its high-order 32 bits are
  65536, and word 14 of the final block is 0, because the two most significant bytes of
  the length field are written as constant zeros.
\<close>

theorem length_field_counterexample:
  "uint (last (processed (snd (digest (foldl update (createJs False new_Uint32Array)
      (replicate (2 ^ 25) (Arr (replicate (2 ^ 20) 0))))))) ! 14)
   \<noteq> 8 * int (total_bytes (replicate (2 ^ 25) (Arr (replicate (2 ^ 20) 0)))) div 2 ^ 32"
proof -
  have n: "total_bytes (replicate (2 ^ 25) (Arr (replicate (2 ^ 20) 0))) = 2 ^ 25 * 2 ^ 20"
    by (rule total_bytes_replicate)
  have c: "False \<longrightarrow> clean new_Uint32Array"
    by simp
  have "uint (last (processed (snd (digest (foldl update (createJs False new_Uint32Array)
      (replicate (2 ^ 25) (Arr (replicate (2 ^ 20) 0))))))) ! 14)
    = (8 * int (2 ^ 25 * 2 ^ 20) div 2 ^ 32) mod 2 ^ 16 mod 2 ^ 32"
    by (simp only: final_length_words(1) [OF c] uint_ToInt32 n)
  also have "\<dots> = 0"
    by simp
  finally show ?thesis
    by (simp only: n) simp
qed

text \<open>
  C8. Whatever one-shot calls came before, they leave the sixteen input words of the
  module's array zero; a one-shot call on that array returns the digest it returns on a
  newly allocated array; an engine that borrows that array returns, for every sequence
  of chunks, the digest of an engine with an array of its own; and two engines with
  arrays of their own return the same digest for the same chunks.
\<close>

theorem no_state_leak:
  "clean (shared_after bufs)
   \<and> fst (sha1 (shared_after bufs) buf) = fst (sha1 new_Uint32Array buf)
   \<and> fst (digest (foldl update (createJs True (shared_after bufs)) cs))
       = fst (digest (foldl update (createJs False sh) cs))
   \<and> fst (digest (foldl update (createJs False sh) cs))
       = fst (digest (foldl update (createJs False sh') cs))"
proof (intro conjI)
  show c: "clean (shared_after bufs)"
    by (rule clean_shared_after)
  show "fst (sha1 (shared_after bufs) buf) = fst (sha1 new_Uint32Array buf)"
    by (rule sha1_no_leak [OF c])
  show "fst (digest (foldl update (createJs True (shared_after bufs)) cs))
       = fst (digest (foldl update (createJs False sh) cs))"
    by (rule shared_no_leak [OF c])
  show "fst (digest (foldl update (createJs False sh) cs))
       = fst (digest (foldl update (createJs False sh') cs))"
    by (simp add: createJs_def)
qed


lemma chain_of_processBlock_log:
  "chain_of (processBlock u) = spec_processBlock (chain_of u) ((!) (last (processed (processBlock u))))"
proof -
  have "\<forall>i < 16. block u i = last (processed (processBlock u)) ! i"
    by (simp add: processed_processBlock del: upt_Suc)
  then show ?thesis
    using spec_processBlock_cong [of "block u" _ "chain_of u"]
    by (simp only: chain_of_processBlock)
qed

text \<open>
  C9, amended. A second call of \<^verbatim>\<open>digest\<close> on the same engine is not rejected. It
  processes exactly one further block, made of the word 0x80000000, thirteen zero
  words and the two length words of the first call (bits 32 to 47 of \<^verbatim>\<open>totalLength\<close>
  and its low 32 bits), on top of the chaining value that the first call left, and
  returns the hexadecimal string of the result.
\<close>

theorem second_digest:
  fixes sync sh cs
  defines "S \<equiv> foldl update (createJs sync sh) cs"
  defines "S1 \<equiv> snd (digest S)"
  shows "processed (snd (digest S1)) =
      processed S1 @ [0x80000000 # replicate 13 0 @
        [ToInt32 ((totalLength S div 2 ^ 32) mod 2 ^ 16), ToInt32 (totalLength S)]]
    \<and> chain_of (snd (digest S1)) =
        spec_processBlock (chain_of S1) ((!) (last (processed (snd (digest S1)))))
    \<and> fst (digest S1) = hex_state (snd (digest S1))"
proof -
  have cur: "offset S1 = 0" "shift S1 = 24"
    unfolding S1_def by (simp_all add: digest_cursor)
  have cl: "\<forall>i < 16. block S1 i = 0"
    unfolding S1_def using digest_clean [of S] by (simp add: clean_iff)
  have tl: "totalLength S1 = totalLength S" "0 \<le> totalLength S"
    unfolding S1_def S_def by (simp_all add: totalLength_digest fresh_totalLength)
  have ok: "cursor_ok S1"
    by (simp add: cursor_ok_def cur)
  have w: "write S1 0x80 = S1\<lparr>block := (block S1)(0 := 0x80000000), shift := 16\<rparr>"
    using cl by (simp add: write_same_word [OF ok] cur stored_def ToInt32_def)
  have pad: "digest_pad S1 = S1\<lparr>block := (block S1)(0 := 0x80000000), offset := 14, shift := 24\<rparr>"
    by (simp add: digest_pad_def Let_def w cur)
  let ?B = "(block S1)(0 := 0x80000000,
      14 := ToInt32 ((totalLength S div 2 ^ 32) mod 2 ^ 16), 15 := ToInt32 (totalLength S))"
  have fin: "snd (digest S1) =
      processBlock (S1\<lparr>block := ?B, offset := 16, shift := 24\<rparr>)"
    using cl by (simp add: digest_final pad tl len_hi_word len_lo_word)
  have blk: "map ?B [0..<16] = 0x80000000 # replicate 13 0 @
        [ToInt32 ((totalLength S div 2 ^ 32) mod 2 ^ 16), ToInt32 (totalLength S)]"
  proof (rule nth_equalityI)
    show "length (map ?B [0..<16]) = length (0x80000000 # replicate 13 0 @
        [ToInt32 ((totalLength S div 2 ^ 32) mod 2 ^ 16), ToInt32 (totalLength S)])"
      by simp
    fix i assume "i < length (map ?B [0..<16])"
    then have "i = 0 \<or> (0 < i \<and> i < 14) \<or> i = 14 \<or> i = 15"
      by auto
    then show "map ?B [0..<16] ! i = (0x80000000 # replicate 13 0 @
        [ToInt32 ((totalLength S div 2 ^ 32) mod 2 ^ 16), ToInt32 (totalLength S)]) ! i"
      using cl by (auto simp add: nth_Cons' nth_append simp del: upt_Suc)
  qed
  have p: "processed (snd (digest S1)) =
      processed S1 @ [0x80000000 # replicate 13 0 @
        [ToInt32 ((totalLength S div 2 ^ 32) mod 2 ^ 16), ToInt32 (totalLength S)]]"
    using blk by (simp add: fin processed_processBlock)
  have "chain_of (S1\<lparr>block := ?B, offset := 16, shift := 24\<rparr>) = chain_of S1"
    by (simp add: chain_of_def)
  then have c: "chain_of (snd (digest S1)) =
        spec_processBlock (chain_of S1) ((!) (last (processed (snd (digest S1)))))"
    using chain_of_processBlock_log [of "S1\<lparr>block := ?B, offset := 16, shift := 24\<rparr>"]
    by (simp only: fin)
  show ?thesis
    using p c digest_fst [of S1] by blast
qed

lemma digest_empty:
  "fst (digest (createJs False new_Uint32Array)) = ''da39a3ee5e6b4b0d3255bfef95601890afd80709''"
  by (simp add: engine_eval del: win_round.simps cong: let_weak_cong)

lemma digest_empty_twice:
  "fst (digest (snd (digest (createJs False new_Uint32Array)))) =
     ''2485e7539b2c97a21e718525bf51d56d1559a0ee''"
  by (simp add: engine_eval del: win_round.simps cong: let_weak_cong)

text \<open>
  The claim as stated fails on the engine that has consumed no input: the second call
  returns a second string, different from the digest of the empty input.
\<close>

theorem second_digest_counterexample:
  "fst (digest (createJs False new_Uint32Array)) = ''da39a3ee5e6b4b0d3255bfef95601890afd80709''
   \<and> fst (digest (snd (digest (createJs False new_Uint32Array)))) =
       ''2485e7539b2c97a21e718525bf51d56d1559a0ee''"
  by (intro conjI digest_empty digest_empty_twice)

text \<open>The amended C5 at the input \<open>abc\<close>: word 14 is 0 and word 15 is 24.\<close>

theorem length_field_witness:
  "8 * int (total_bytes [Str (js_string ''abc'')]) < 2 ^ 48
   \<and> uint (last (processed (snd (digest (foldl update (createJs True (shared_after []))
        [Str (js_string ''abc'')])))) ! 14) = 0
   \<and> uint (last (processed (snd (digest (foldl update (createJs True (shared_after []))
        [Str (js_string ''abc'')])))) ! 15) = 24"
proof -
  have h: "8 * int (total_bytes [Str (js_string ''abc'')]) < 2 ^ 48"
    by (simp add: total_bytes_def chunk_bytes_def js_string_def)
  have t: "8 * int (total_bytes [Str (js_string ''abc'')]) = 24"
    by (simp add: total_bytes_def chunk_bytes_def js_string_def)
  show ?thesis
    using h length_field [OF h, of True "[]"] unfolding t by simp
qed

end
